theory Spec2Isabelle
  imports Main "HOL-Library.Sublist" "HOL-Library.Multiset"
begin

section \<open>Strings and the two tests on a line\<close>

text \<open>
  A Python \<open>str\<close> is a sequence of Unicode code points; a line is modelled as the list of
  its code points, so that every theorem below holds for every Python string and not only for
  8-bit text. \<open>str\<close> writes an ASCII literal as such a list.
\<close>

type_synonym line = "nat list"

definition str :: "string \<Rightarrow> line" where
  "str s = map of_char s"

text \<open>
  \<open>line.isspace()\<close>: true when the string has at least one character and all of them are
  whitespace. The whitespace code points are those of CPython 3
  (\<open>_PyUnicode_IsWhitespace\<close>): U+0009..U+000D, U+001C..U+001F, U+0020, U+0085, U+00A0,
  U+1680, U+2000..U+200A, U+2028, U+2029, U+202F, U+205F, U+3000.
\<close>

definition py_isspace_char :: "nat \<Rightarrow> bool" where
  "py_isspace_char c =
     ((9 \<le> c \<and> c \<le> 13) \<or> (28 \<le> c \<and> c \<le> 32) \<or> c = 133 \<or> c = 160 \<or> c = 5760 \<or>
      (8192 \<le> c \<and> c \<le> 8202) \<or> c = 8232 \<or> c = 8233 \<or> c = 8239 \<or> c = 8287 \<or>
      c = 12288)"

definition isspace :: "line \<Rightarrow> bool" where
  "isspace l = (l \<noteq> [] \<and> list_all py_isspace_char l)"

text \<open>
  \<open>rx_end = re.compile(r'.*\|#\]')\<close> and \<open>rx_end.match(line)\<close>: the match is anchored at
  the start of the line; \<open>.\<close> takes any character but the newline (code point 10), and the
  three literal characters \<open>|#]\<close> (124, 35, 93) must follow. Whether a match exists does
  not depend on the greediness of \<open>.*\<close>: at each position either the literal matches here,
  or \<open>.\<close> consumes one more character.
\<close>

definition newline :: nat where
  "newline = 10"

definition sentinel :: line where
  "sentinel = [124, 35, 93]"

fun rx_end_match :: "line \<Rightarrow> bool" where
  "rx_end_match [] = False"
| "rx_end_match (c # cs) =
     (take (length sentinel) (c # cs) = sentinel \<or> (c \<noteq> newline \<and> rx_end_match cs))"

section \<open>The entry aggregator\<close>

text \<open>
  \<open>aggregate_entries\<close> is a generator. Its two local variables are the state of the loop:
  \<open>buffer\<close>, and \<open>entry_line_no\<close>, which is unbound (\<open>None\<close>) until its first assignment.
  Two things can stop the loop early: the assertion \<open>len(buffer) < 5000\<close> (assertions
  are on, as they are unless Python runs with \<open>-O\<close>), and reading \<open>entry_line_no\<close> in
  the \<open>yield\<close> before any assignment to it. The list that is yielded is not touched
  afterwards: \<open>buffer = []\<close> binds a new list.
\<close>

datatype error = AssertionError | UnboundLocalError

type_synonym entry = "nat \<times> line list"

type_synonym agg_state = "line list \<times> nat option"

text \<open>The second statement of the loop body: the sentinel test, on the raw line.\<close>

definition agg_yield :: "line \<Rightarrow> agg_state \<Rightarrow> error + (entry option \<times> agg_state)" where
  "agg_yield line s =
     (case s of (buffer, entry_line_no) \<Rightarrow>
        if rx_end_match line then
          (case entry_line_no of
             None \<Rightarrow> Inl UnboundLocalError
           | Some n \<Rightarrow> Inr (Some (n, buffer), ([], entry_line_no)))
        else Inr (None, (buffer, entry_line_no)))"

text \<open>One iteration of the loop, for the line numbered \<open>line_no\<close>.\<close>

definition agg_step :: "nat \<Rightarrow> line \<Rightarrow> agg_state \<Rightarrow> error + (entry option \<times> agg_state)" where
  "agg_step line_no line s =
     (case s of (buffer, entry_line_no) \<Rightarrow>
        if length buffer > 0 \<or> \<not> isspace line then
          (let entry_line_no' = (if length buffer = 0 then Some line_no else entry_line_no)
           in if \<not> length buffer < 5000 then Inl AssertionError
              else agg_yield line (buffer @ [line], entry_line_no'))
        else agg_yield line (buffer, entry_line_no))"

text \<open>
  The loop over \<open>enumerate(lines, 1)\<close>. The result is the list of the pairs yielded, in
  order, and how the generator ended: with an exception, or by exhausting the lines, in
  which case the final values of the local variables are returned too.
\<close>

fun agg_loop :: "nat \<Rightarrow> line list \<Rightarrow> agg_state \<Rightarrow> entry list \<times> (error + agg_state)" where
  "agg_loop line_no [] s = ([], Inr s)"
| "agg_loop line_no (line # lines) s =
     (case agg_step line_no line s of
        Inl e \<Rightarrow> ([], Inl e)
      | Inr (y, s') \<Rightarrow>
          (case agg_loop (line_no + 1) lines s' of
             (ys, r) \<Rightarrow> ((case y of None \<Rightarrow> [] | Some en \<Rightarrow> [en]) @ ys, r)))"

definition aggregate_entries :: "line list \<Rightarrow> entry list \<times> error option" where
  "aggregate_entries lines =
     (case agg_loop 1 lines ([], None) of
        (ys, r) \<Rightarrow> (ys, (case r of Inl e \<Rightarrow> Some e | Inr s \<Rightarrow> None)))"

section \<open>The entry filter\<close>

text \<open>
  A compiled pattern is used only through \<open>regex.search(l)\<close>, and only the truth value of
  the result is read (a match object is true, \<open>None\<close> is false): a pattern is modelled by
  that test. \<open>any\<close> over the lines of \<open>entry[1]\<close> is \<open>list_ex\<close>, and the \<open>else\<close> of the
  \<open>for\<close> runs when the loop ends without having returned.
\<close>

datatype regex = Regex (search: "line \<Rightarrow> bool")

fun matches :: "regex list \<Rightarrow> entry \<Rightarrow> bool" where
  "matches [] entry = True"
| "matches (regex # regexes) entry =
     (if \<not> list_ex (\<lambda>l. search regex l) (snd entry) then False
      else matches regexes entry)"

definition make_regex_filter :: "regex list \<Rightarrow> entry \<Rightarrow> bool" where
  "make_regex_filter regexes = matches regexes"

section \<open>Vocabulary of the properties\<close>

text \<open>
  The definitions of this section describe inputs and results; they are not part of the
  program. An entry, as the aggregator can yield it whole: a non-empty run of at most 5000
  lines whose first line is not whitespace-only and whose last line, and no line before it,
  matches the end-sentinel pattern.
\<close>

definition well_formed_entry :: "line list \<Rightarrow> bool" where
  "well_formed_entry e =
     (e \<noteq> [] \<and> \<not> isspace (hd e) \<and> rx_end_match (last e) \<and>
      list_all (\<lambda>l. \<not> rx_end_match l) (butlast e) \<and> length e \<le> 5000)"

text \<open>
  A stream made of entries, each preceded by a (possibly empty) run of separator lines, is
  given as the list of the pairs (separators, entry); \<open>flat\<close> is the stream itself, and
  \<open>numbered n\<close> the entries paired with the ordinals of their first lines when the stream
  starts at ordinal \<open>n\<close>.
\<close>

definition flat :: "(line list \<times> line list) list \<Rightarrow> line list" where
  "flat segs = concat (map (\<lambda>(bs, e). bs @ e) segs)"

fun numbered :: "nat \<Rightarrow> (line list \<times> line list) list \<Rightarrow> entry list" where
  "numbered n [] = []"
| "numbered n ((bs, e) # segs) = (n + length bs, e) # numbered (n + length bs + length e) segs"

text \<open>
  Invariant of the loop before the line numbered \<open>n\<close>: line numbers start at 1, and a
  non-empty buffer holds the lines from the recorded \<open>entry_line_no\<close> up to \<open>n - 1\<close>.
\<close>

definition agg_inv :: "nat \<Rightarrow> agg_state \<Rightarrow> bool" where
  "agg_inv n s =
     (case s of (buf, eln) \<Rightarrow>
        1 \<le> n \<and> (buf = [] \<or> eln = Some (n - length buf) \<and> length buf < n))"


definition same_tests :: "line \<Rightarrow> line \<Rightarrow> bool" where
  "same_tests a b = (isspace a = isspace b \<and> rx_end_match a = rx_end_match b)"

definition shape :: "entry list \<times> (error + agg_state) \<Rightarrow> (nat \<times> nat) list \<times> (error + nat \<times> nat option)" where
  "shape res = (map (\<lambda>en. (fst en, length (snd en))) (fst res),
                map_sum id (\<lambda>s. (length (fst s), snd s)) (snd res))"

section \<open>The sentinel test\<close>

text \<open>
  A line matches the pattern exactly when \<open>|#]\<close> occurs in it with no newline before
  the occurrence. Such a line contains \<open>|#]\<close>; the converse holds for a line whose only
  newline, if any, is its last character, as the lines read from a text file are. A line
  that matches is not whitespace-only, since \<open>|\<close> is not whitespace.
\<close>

lemma rx_end_match_iff:
  "rx_end_match l \<longleftrightarrow> (\<exists>p s. l = p @ sentinel @ s \<and> newline \<notin> set p)"
proof (induction l)
  case Nil
  show ?case by (simp add: sentinel_def)
next
  case (Cons c cs)
  show ?case
  proof
    assume "rx_end_match (c # cs)"
    then consider (here) "take (length sentinel) (c # cs) = sentinel"
      | (later) "c \<noteq> newline" "rx_end_match cs"
      by auto
    then show "\<exists>p s. c # cs = p @ sentinel @ s \<and> newline \<notin> set p"
    proof cases
      case here
      have "c # cs = take (length sentinel) (c # cs) @ drop (length sentinel) (c # cs)"
        by (simp only: append_take_drop_id)
      with here have "c # cs = [] @ sentinel @ drop (length sentinel) (c # cs)"
        by simp
      then show ?thesis
        by (metis empty_iff empty_set)
    next
      case later
      with Cons obtain p s where "cs = p @ sentinel @ s" "newline \<notin> set p"
        by auto
      with later have "c # cs = (c # p) @ sentinel @ s \<and> newline \<notin> set (c # p)"
        by simp
      then show ?thesis by blast
    qed
  next
    assume "\<exists>p s. c # cs = p @ sentinel @ s \<and> newline \<notin> set p"
    then obtain p s where ps: "c # cs = p @ sentinel @ s" "newline \<notin> set p"
      by blast
    show "rx_end_match (c # cs)"
    proof (cases p)
      case Nil
      with ps have "take (length sentinel) (c # cs) = sentinel" by simp
      then show ?thesis by simp
    next
      case (Cons a p')
      with ps have "c = a" "cs = p' @ sentinel @ s" "newline \<notin> set p'" "a \<noteq> newline"
        by auto
      with Cons.IH show ?thesis by auto
    qed
  qed
qed

lemma rx_end_match_sublist: "rx_end_match l \<Longrightarrow> sublist sentinel l"
  by (auto simp: rx_end_match_iff sublist_def)

lemma sublist_rx_end_match:
  assumes "newline \<notin> set (butlast l)" "sublist sentinel l"
  shows "rx_end_match l"
proof -
  from assms(2) obtain p s where l: "l = p @ sentinel @ s"
    by (auto simp: sublist_def)
  then have "set p \<subseteq> set (butlast l)"
    by (auto simp: butlast_append sentinel_def)
  with assms(1) have "newline \<notin> set p" by blast
  with l show ?thesis by (auto simp: rx_end_match_iff)
qed

lemma rx_end_match_not_isspace: "rx_end_match l \<Longrightarrow> \<not> isspace l"
proof -
  assume "rx_end_match l"
  then have "124 \<in> set l"
    by (auto simp: rx_end_match_iff sentinel_def)
  moreover have "\<not> py_isspace_char 124"
    by (simp add: py_isspace_char_def)
  ultimately show ?thesis
    by (auto simp: isspace_def list_all_iff)
qed

lemma isspace_not_rx_end_match: "isspace l \<Longrightarrow> \<not> rx_end_match l"
  using rx_end_match_not_isspace by blast

section \<open>One iteration of the loop\<close>

text \<open>The outcomes of \<open>agg_step\<close>, by the state of the buffer and the two tests.\<close>

lemma agg_step_blank:
  "isspace l \<Longrightarrow> agg_step n l ([], e) = Inr (None, ([], e))"
  by (simp add: agg_step_def agg_yield_def isspace_not_rx_end_match)

lemma agg_step_append:
  "buf \<noteq> [] \<or> \<not> isspace l \<Longrightarrow> length buf < 5000 \<Longrightarrow> \<not> rx_end_match l \<Longrightarrow>
   agg_step n l (buf, e) = Inr (None, (buf @ [l], if buf = [] then Some n else e))"
  by (auto simp: agg_step_def agg_yield_def Let_def)

lemma agg_step_flush_first:
  "rx_end_match l \<Longrightarrow> agg_step n l ([], e) = Inr (Some (n, [l]), ([], Some n))"
  by (simp add: agg_step_def agg_yield_def rx_end_match_not_isspace)

lemma agg_step_flush:
  "buf \<noteq> [] \<Longrightarrow> length buf < 5000 \<Longrightarrow> rx_end_match l \<Longrightarrow>
   agg_step n l (buf, Some k) = Inr (Some (k, buf @ [l]), ([], Some k))"
  by (simp add: agg_step_def agg_yield_def)

lemma agg_step_overflow:
  "5000 \<le> length buf \<Longrightarrow> agg_step n l (buf, e) = Inl AssertionError"
  by (auto simp: agg_step_def agg_yield_def Let_def)

section \<open>Runs of the loop\<close>

text \<open>
  The loop over a stream \<open>xs @ ys\<close> is the loop over \<open>xs\<close>, followed, if no exception
  was raised, by the loop over \<open>ys\<close> from the state and the line number reached.
\<close>

lemma agg_loop_append:
  "agg_loop n (xs @ ys) s =
     (case agg_loop n xs s of
        (y1, Inl e) \<Rightarrow> (y1, Inl e)
      | (y1, Inr s') \<Rightarrow>
          (case agg_loop (n + length xs) ys s' of (y2, r) \<Rightarrow> (y1 @ y2, r)))"
proof (induction xs arbitrary: n s)
  case Nil
  show ?case by simp
next
  case (Cons x xs)
  show ?case
  proof (cases "agg_step n x s")
    case (Inl e)
    then show ?thesis by simp
  next
    case (Inr p)
    obtain y s' where p: "p = (y, s')" by (cases p)
    show ?thesis
      using Inr p Cons.IH [of "Suc n" s']
      by (simp split: prod.splits sum.splits)
  qed
qed

lemma agg_loop_blanks:
  "list_all isspace bs \<Longrightarrow> agg_loop n bs ([], e) = ([], Inr ([], e))"
  by (induction bs arbitrary: n) (simp_all add: agg_step_blank)

lemma agg_loop_accumulate:
  "buf \<noteq> [] \<Longrightarrow> list_all (\<lambda>l. \<not> rx_end_match l) xs \<Longrightarrow> length buf + length xs \<le> 5000 \<Longrightarrow>
   agg_loop n xs (buf, e) = ([], Inr (buf @ xs, e))"
proof (induction xs arbitrary: n buf)
  case Nil
  show ?case by simp
next
  case (Cons x xs)
  from Cons.prems have "agg_step n x (buf, e) = Inr (None, (buf @ [x], e))"
    by (simp add: agg_step_append)
  moreover from Cons.prems have "agg_loop (n + 1) xs (buf @ [x], e) = ([], Inr ((buf @ [x]) @ xs, e))"
    by (intro Cons.IH) simp_all
  ultimately show ?case by simp
qed

lemma agg_loop_append_ok:
  "agg_loop n xs s = (y1, Inr s') \<Longrightarrow> agg_loop (n + length xs) ys s' = (y2, r) \<Longrightarrow>
   agg_loop n (xs @ ys) s = (y1 @ y2, r)"
  by (simp add: agg_loop_append)

lemma agg_loop_append_err:
  "agg_loop n xs s = (y1, Inl e) \<Longrightarrow> agg_loop n (xs @ ys) s = (y1, Inl e)"
  by (simp add: agg_loop_append)

lemma agg_loop_entry_aux:
  assumes "m \<noteq> [] \<longrightarrow> \<not> isspace (hd m)" "list_all (\<lambda>l. \<not> rx_end_match l) m"
    and "rx_end_match l" "length m < 5000"
  shows "agg_loop n (m @ [l]) ([], eln) = ([(n, m @ [l])], Inr ([], Some n))"
proof (cases m)
  case Nil
  with assms(3) show ?thesis
    by (simp add: agg_step_flush_first)
next
  case (Cons x xs)
  with assms have x: "\<not> isspace x" "\<not> rx_end_match x"
    and xs: "list_all (\<lambda>l. \<not> rx_end_match l) xs" "length [x] + length xs \<le> 5000"
    and l: "length (x # xs) < 5000"
    by simp_all
  have 1: "agg_loop n [x] ([], eln) = ([], Inr ([x], Some n))"
    using x by (simp add: agg_step_append)
  have 2: "agg_loop (n + length [x]) xs ([x], Some n) = ([], Inr ([x] @ xs, Some n))"
    using xs by (intro agg_loop_accumulate) simp_all
  have 3: "agg_loop (n + length [x] + length xs) [l] ([x] @ xs, Some n)
             = ([(n, [x] @ xs @ [l])], Inr ([], Some n))"
    using l assms(3) by (simp add: agg_step_flush)
  have "agg_loop n ([x] @ xs @ [l]) ([], eln) = ([] @ [] @ [(n, [x] @ xs @ [l])], Inr ([], Some n))"
    by (rule agg_loop_append_ok [OF 1 agg_loop_append_ok [OF 2 3]])
  with Cons show ?thesis by simp
qed

lemma agg_loop_entry:
  assumes "well_formed_entry e"
  shows "agg_loop n e ([], eln) = ([(n, e)], Inr ([], Some n))"
proof -
  from assms obtain m l where e: "e = m @ [l]"
    by (metis append_butlast_last_id well_formed_entry_def)
  from assms have "m \<noteq> [] \<longrightarrow> \<not> isspace (hd m)" "list_all (\<lambda>l. \<not> rx_end_match l) m"
    "rx_end_match l" "length m < 5000"
    by (auto simp: well_formed_entry_def e)
  then show ?thesis
    unfolding e by (rule agg_loop_entry_aux)
qed

text \<open>
  For lines whose only newline, if any, is the last character, an entry is well formed
  when its last line, and no line before it, contains \<open>|#]\<close>.
\<close>

lemma well_formed_entry_contains:
  assumes "list_all (\<lambda>l. newline \<notin> set (butlast l)) e"
  shows "well_formed_entry e \<longleftrightarrow>
           (e \<noteq> [] \<and> \<not> isspace (hd e) \<and> sublist sentinel (last e) \<and>
            list_all (\<lambda>l. \<not> sublist sentinel l) (butlast e) \<and> length e \<le> 5000)"
proof -
  have "rx_end_match l = sublist sentinel l" if "l \<in> set e" for l
    using that assms rx_end_match_sublist [of l] sublist_rx_end_match [of l]
    by (auto simp: list_all_iff)
  moreover have "e \<noteq> [] \<Longrightarrow> last e \<in> set e" "\<And>l. l \<in> set (butlast e) \<Longrightarrow> l \<in> set e"
    by (auto dest: in_set_butlastD)
  ultimately show ?thesis
    unfolding well_formed_entry_def list_all_iff by blast
qed

lemma agg_loop_segments:
  assumes "list_all (\<lambda>(bs, e). list_all isspace bs \<and> well_formed_entry e) segs"
  shows "\<exists>eln'. agg_loop n (flat segs) ([], eln) = (numbered n segs, Inr ([], eln'))"
  using assms
proof (induction segs arbitrary: n eln)
  case Nil
  show ?case by (simp add: flat_def)
next
  case (Cons seg segs)
  obtain bs e where seg: "seg = (bs, e)" by (cases seg)
  with Cons.prems have bs: "list_all isspace bs" and e: "well_formed_entry e"
    and rest: "list_all (\<lambda>(bs, e). list_all isspace bs \<and> well_formed_entry e) segs"
    by simp_all
  from Cons.IH [OF rest] obtain eln' where
    3: "agg_loop (n + length bs + length e) (flat segs) ([], Some (n + length bs))
          = (numbered (n + length bs + length e) segs, Inr ([], eln'))"
    by blast
  have 1: "agg_loop n bs ([], eln) = ([], Inr ([], eln))"
    using bs by (rule agg_loop_blanks)
  have 2: "agg_loop (n + length bs) e ([], eln) = ([(n + length bs, e)], Inr ([], Some (n + length bs)))"
    using e by (rule agg_loop_entry)
  have "flat (seg # segs) = bs @ e @ flat segs"
    by (simp add: flat_def seg)
  moreover have "agg_loop n (bs @ e @ flat segs) ([], eln)
      = ([] @ [(n + length bs, e)] @ numbered (n + length bs + length e) segs, Inr ([], eln'))"
    by (rule agg_loop_append_ok [OF 1 agg_loop_append_ok [OF 2 3]])
  ultimately have "agg_loop n (flat (seg # segs)) ([], eln) = (numbered n (seg # segs), Inr ([], eln'))"
    by (simp add: seg)
  then show ?case by blast
qed

lemma numbered_closed_form:
  "numbered n segs =
     map (\<lambda>i. (n + length (flat (take i segs)) + length (fst (segs ! i)), snd (segs ! i)))
       [0..<length segs]"
proof (induction segs arbitrary: n)
  case Nil
  show ?case by simp
next
  case (Cons seg segs)
  obtain bs e where seg: "seg = (bs, e)" by (cases seg)
  have "[0..<length (seg # segs)] = 0 # map Suc [0..<length segs]"
    by (simp add: upt_conv_Cons map_Suc_upt del: upt_Suc)
  then show ?case
    by (simp add: seg Cons.IH flat_def add.assoc del: upt_Suc)
qed

section \<open>The loop invariant\<close>

lemma agg_step_cases:
  assumes "agg_step n l (buf, eln) = Inr (y, (buf', eln'))"
  obtains (skip) "buf = []" "isspace l" "y = None" "buf' = []" "eln' = eln"
  | (append) "buf \<noteq> [] \<or> \<not> isspace l" "length buf < 5000" "\<not> rx_end_match l"
      "y = None" "buf' = buf @ [l]" "eln' = (if buf = [] then Some n else eln)"
  | (flush) k where "buf \<noteq> [] \<or> \<not> isspace l" "length buf < 5000" "rx_end_match l"
      "y = Some (k, buf @ [l])" "buf' = []" "eln' = Some k"
      "Some k = (if buf = [] then Some n else eln)"
  using assms
  by (auto simp: agg_step_def agg_yield_def Let_def isspace_not_rx_end_match
      split: if_splits option.splits)

lemma agg_step_error_cases:
  assumes "agg_step n l (buf, eln) = Inl e"
  shows "(e = AssertionError \<and> 5000 \<le> length buf) \<or>
         (e = UnboundLocalError \<and> buf \<noteq> [] \<and> eln = None \<and> rx_end_match l)"
  using assms
  by (auto simp: agg_step_def agg_yield_def Let_def isspace_not_rx_end_match
      split: if_splits option.splits)

lemma agg_inv_step:
  assumes "agg_inv n (buf, eln)" "agg_step n l (buf, eln) = Inr (y, s')"
  shows "agg_inv (Suc n) s'"
proof -
  obtain buf' eln' where s': "s' = (buf', eln')" by (cases s')
  from assms(2) [unfolded s'] show ?thesis
  proof (cases rule: agg_step_cases)
    case skip
    then show ?thesis by (simp add: s' agg_inv_def)
  next
    case append
    with assms(1) show ?thesis by (auto simp: s' agg_inv_def)
  next
    case (flush k)
    then show ?thesis by (simp add: s' agg_inv_def)
  qed
qed

lemma agg_step_yield:
  assumes "agg_inv n (buf, eln)" "agg_step n l (buf, eln) = Inr (Some (k, ls), s')"
  shows "k = n - length buf \<and> ls = buf @ [l] \<and> rx_end_match l \<and> fst s' = []"
proof -
  obtain buf' eln' where s': "s' = (buf', eln')" by (cases s')
  from assms(2) [unfolded s'] show ?thesis
  proof (cases rule: agg_step_cases)
    case skip
    then show ?thesis by simp
  next
    case append
    then show ?thesis by simp
  next
    case (flush k')
    with assms(1) show ?thesis by (auto simp: s' agg_inv_def split: if_splits)
  qed
qed

lemma agg_step_no_unbound:
  assumes "agg_inv n (buf, eln)"
  shows "agg_step n l (buf, eln) \<noteq> Inl UnboundLocalError"
  using assms agg_step_error_cases [of n l buf eln UnboundLocalError]
  by (auto simp: agg_inv_def)

lemma agg_step_buffer_length:
  assumes "agg_step n l (buf, eln) = Inr (None, s')"
  shows "fst s' = (if buf = [] \<and> isspace l then [] else buf @ [l])"
proof -
  obtain buf' eln' where s': "s' = (buf', eln')" by (cases s')
  from assms [unfolded s'] show ?thesis
    by (cases rule: agg_step_cases) (auto simp: s')
qed

lemma agg_loop_starts:
  assumes "agg_inv n (buf, eln)" "agg_loop n lines (buf, eln) = (ys, r)"
  shows "sorted_wrt (\<lambda>a b. fst a + length (snd a) \<le> fst b) ys \<and>
         (\<forall>y \<in> set ys. n - length buf \<le> fst y \<and> snd y \<noteq> [] \<and> 1 \<le> fst y) \<and>
         r \<noteq> Inl UnboundLocalError"
  using assms
proof (induction lines arbitrary: n buf eln ys r)
  case Nil
  then show ?case by auto
next
  case (Cons l lines)
  show ?case
  proof (cases "agg_step n l (buf, eln)")
    case (Inl e)
    with Cons.prems agg_step_no_unbound [of n buf eln l] show ?thesis by auto
  next
    case (Inr p)
    obtain y buf' eln' where p: "p = (y, (buf', eln'))" by (cases p) auto
    obtain ys' where run: "agg_loop (Suc n) lines (buf', eln') = (ys', r)"
      and ys: "ys = (case y of None \<Rightarrow> [] | Some en \<Rightarrow> [en]) @ ys'"
      using Cons.prems(2) Inr p by (auto split: prod.splits)
    have inv': "agg_inv (Suc n) (buf', eln')"
      using agg_inv_step [OF Cons.prems(1)] Inr p by simp
    note IH = Cons.IH [OF inv' run]
    show ?thesis
    proof (cases y)
      case None
      from Inr p None have "buf' = (if buf = [] \<and> isspace l then [] else buf @ [l])"
        using agg_step_buffer_length [of n l buf eln "(buf', eln')"] by simp
      then have "n - length buf \<le> Suc n - length buf'"
        by auto
      with IH None ys show ?thesis by fastforce
    next
      case (Some en)
      obtain k ls where en: "en = (k, ls)" by (cases en)
      from Inr p Some en Cons.prems(1)
      have k: "k = n - length buf" "ls = buf @ [l]" "buf' = []"
        using agg_step_yield [of n buf eln l k ls "(buf', eln')"] by simp_all
      from Cons.prems(1) have "1 \<le> n" "buf = [] \<or> length buf < n"
        by (auto simp: agg_inv_def)
      with k have "k + length ls = Suc n" "1 \<le> k"
        by auto
      with IH k show ?thesis
        by (auto simp: ys Some en)
    qed
  qed
qed

text \<open>
  With \<open>pre\<close> the lines already consumed: the buffer is a suffix of them, and every entry
  yielded from here on is a slice of the whole stream.
\<close>

lemma agg_loop_slices:
  assumes "agg_inv (Suc (length pre)) (buf, eln)" "suffix buf pre"
    and "buf \<noteq> [] \<longrightarrow> \<not> isspace (hd buf)" "list_all (\<lambda>l. \<not> rx_end_match l) buf"
    and "agg_loop (Suc (length pre)) lines (buf, eln) = (ys, r)"
  shows "\<forall>y \<in> set ys. take (length (snd y)) (drop (fst y - 1) (pre @ lines)) = snd y \<and>
           \<not> isspace (hd (snd y)) \<and> rx_end_match (last (snd y)) \<and>
           list_all (\<lambda>l. \<not> rx_end_match l) (butlast (snd y))"
  using assms
proof (induction lines arbitrary: pre buf eln ys r)
  case Nil
  then show ?case by auto
next
  case (Cons l lines)
  let ?n = "Suc (length pre)"
  show ?case
  proof (cases "agg_step ?n l (buf, eln)")
    case (Inl e)
    with Cons.prems show ?thesis by auto
  next
    case (Inr p)
    obtain y buf' eln' where p: "p = (y, (buf', eln'))" by (cases p) auto
    obtain ys' where run: "agg_loop (Suc (length (pre @ [l]))) lines (buf', eln') = (ys', r)"
      and ys: "ys = (case y of None \<Rightarrow> [] | Some en \<Rightarrow> [en]) @ ys'"
      using Cons.prems(5) Inr p by (auto split: prod.splits)
    have inv': "agg_inv (Suc (length (pre @ [l]))) (buf', eln')"
      using agg_inv_step [OF Cons.prems(1)] Inr p by simp
    from Inr p have step: "agg_step ?n l (buf, eln) = Inr (y, (buf', eln'))" by simp
    from step have buf': "suffix buf' (pre @ [l])" "buf' \<noteq> [] \<longrightarrow> \<not> isspace (hd buf')"
      "list_all (\<lambda>l. \<not> rx_end_match l) buf'"
      using Cons.prems(2,3,4) by (cases rule: agg_step_cases; auto simp: hd_append)+
    have IH: "\<forall>y \<in> set ys'. take (length (snd y)) (drop (fst y - 1) (pre @ l # lines)) = snd y \<and>
           \<not> isspace (hd (snd y)) \<and> rx_end_match (last (snd y)) \<and>
           list_all (\<lambda>l. \<not> rx_end_match l) (butlast (snd y))"
      using Cons.IH [OF inv' buf' run] by simp
    show ?thesis
    proof (cases y)
      case None
      with IH ys show ?thesis by simp
    next
      case (Some en)
      obtain k ls where en: "en = (k, ls)" by (cases en)
      from step Some en Cons.prems(1)
      have k: "k = ?n - length buf" "ls = buf @ [l]" "rx_end_match l"
        using agg_step_yield [of ?n buf eln l k ls "(buf', eln')"] by simp_all
      from Cons.prems(2) have "length buf \<le> length pre" "drop (length pre - length buf) pre = buf"
        by (auto simp: suffix_def)
      with k have "take (length ls) (drop (k - 1) (pre @ l # lines)) = ls"
        by simp
      moreover from step have "\<not> isspace (hd ls)"
        using Cons.prems(3) k
        by (cases rule: agg_step_cases; auto simp: hd_append isspace_not_rx_end_match)
      moreover from k Cons.prems(4) have "rx_end_match (last ls)"
        "list_all (\<lambda>l. \<not> rx_end_match l) (butlast ls)"
        by simp_all
      ultimately show ?thesis
        using IH by (simp add: ys Some en)
    qed
  qed
qed

section \<open>Renumbering, and lines that agree on the two tests\<close>



lemma agg_step_same_tests:
  assumes "same_tests a b" "length b1 = length b2"
  shows "map_sum id (\<lambda>(y, s). (map_option (\<lambda>en. (fst en, length (snd en))) y, (length (fst s), snd s)))
           (agg_step n a (b1, e)) =
         map_sum id (\<lambda>(y, s). (map_option (\<lambda>en. (fst en, length (snd en))) y, (length (fst s), snd s)))
           (agg_step n b (b2, e))"
  using assms
  by (auto simp: agg_step_def agg_yield_def Let_def same_tests_def split: option.splits)

lemma agg_loop_same_tests:
  assumes "list_all2 same_tests xs ys" "length b1 = length b2"
  shows "shape (agg_loop n xs (b1, e)) = shape (agg_loop n ys (b2, e))"
  using assms
proof (induction xs ys arbitrary: n b1 b2 e rule: list_all2_induct)
  case Nil
  then show ?case by (simp add: shape_def)
next
  case (Cons x xs y ys)
  note st = agg_step_same_tests [OF Cons.hyps(1) Cons.prems, of n e]
  show ?case
  proof (cases "agg_step n x (b1, e)")
    case (Inl err)
    with st have "agg_step n y (b2, e) = Inl err"
      by (cases "agg_step n y (b2, e)") auto
    with Inl show ?thesis by (simp add: shape_def)
  next
    case (Inr p)
    obtain y1 b1' e1' where p: "p = (y1, (b1', e1'))" by (cases p) auto
    with Inr st obtain y2 b2' where 2: "agg_step n y (b2, e) = Inr (y2, (b2', e1'))"
      and y: "map_option (\<lambda>en. (fst en, length (snd en))) y1 = map_option (\<lambda>en. (fst en, length (snd en))) y2"
      and b: "length b1' = length b2'"
      by (cases "agg_step n y (b2, e)") auto
    from Cons.IH [OF b, of "Suc n" e1'] Inr p 2 y show ?thesis
      by (auto simp: shape_def split: prod.splits option.splits)
  qed
qed

section \<open>Accumulation up to the bound\<close>

lemma agg_loop_accumulate_first:
  assumes "buf \<noteq> [] \<or> xs \<noteq> [] \<and> \<not> isspace (hd xs)"
    and "list_all (\<lambda>l. \<not> rx_end_match l) xs" "length buf + length xs \<le> 5000"
  shows "agg_loop n xs (buf, e) = ([], Inr (buf @ xs, if buf = [] then Some n else e))"
proof (cases "buf = []")
  case False
  with assms show ?thesis by (simp add: agg_loop_accumulate)
next
  case True
  with assms(1) obtain x xs' where xs: "xs = [x] @ xs'" and x: "\<not> isspace x"
    by (cases xs) auto
  with assms(2) have 1: "agg_loop n [x] ([], e) = ([], Inr ([x], Some n))"
    by (simp add: agg_step_append)
  have 2: "agg_loop (n + length [x]) xs' ([x], Some n) = ([], Inr ([x] @ xs', Some n))"
    using assms(2,3) xs by (intro agg_loop_accumulate) simp_all
  show ?thesis
    using agg_loop_append_ok [OF 1 2] by (simp add: True xs)
qed

lemma agg_loop_overflow:
  assumes "buf \<noteq> [] \<or> xs \<noteq> [] \<and> \<not> isspace (hd xs)"
    and "list_all (\<lambda>l. \<not> rx_end_match l) xs" "length buf + length xs = 5000"
  shows "agg_loop n (xs @ l # rest) (buf, e) = ([], Inl AssertionError)"
proof -
  have 1: "agg_loop n xs (buf, e) = ([], Inr (buf @ xs, if buf = [] then Some n else e))"
    using assms by (intro agg_loop_accumulate_first) simp_all
  have 2: "agg_loop (n + length xs) (l # rest) (buf @ xs, if buf = [] then Some n else e)
             = ([], Inl AssertionError)"
    using assms(3) by (simp add: agg_step_overflow)
  show ?thesis
    using agg_loop_append_ok [OF 1 2] by simp
qed

lemma aggregate_entries_after:
  assumes "agg_loop 1 pre ([], None) = (ys, Inr s)" "agg_loop (Suc (length pre)) rest s = (ys', r)"
  shows "aggregate_entries (pre @ rest) = (ys @ ys', case r of Inl e \<Rightarrow> Some e | Inr s \<Rightarrow> None)"
  using agg_loop_append_ok [OF assms(1), of rest ys' r] assms(2)
  by (simp add: aggregate_entries_def)

lemma agg_inv_init: "agg_inv 1 ([], None)"
  by (simp add: agg_inv_def)

section \<open>The filter and the order of the start lines\<close>

lemma matches_iff:
  "matches regexes entry \<longleftrightarrow> (\<forall>regex \<in> set regexes. \<exists>l \<in> set (snd entry). search regex l)"
  by (induction regexes) (auto simp: list_ex_iff)

lemma sorted_starts:
  fixes ys :: "entry list"
  assumes "sorted_wrt (\<lambda>a b. fst a + length (snd a) \<le> fst b) ys" "\<forall>y \<in> set ys. snd y \<noteq> []"
  shows "sorted_wrt (<) (map fst ys)"
proof -
  have "sorted_wrt (\<lambda>a b. fst a < fst b) ys"
  proof (rule sorted_wrt_mono_rel [OF _ assms(1)])
    fix a b :: entry
    assume "a \<in> set ys" "fst a + length (snd a) \<le> fst b"
    with assms(2) have "0 < length (snd a)" by auto
    with \<open>fst a + length (snd a) \<le> fst b\<close> show "fst a < fst b" by linarith
  qed
  then show ?thesis by (simp add: sorted_wrt_map)
qed

section \<open>Evaluation on concrete streams\<close>

text \<open>The defining equations that unfold a run of the program on a concrete input.\<close>

lemmas eval_defs = aggregate_entries_def agg_step_def agg_yield_def isspace_def
  py_isspace_char_def str_def sentinel_def newline_def

lemma not_rx_end_match_x: "\<not> rx_end_match (str ''x'')"
  by (simp add: str_def sentinel_def)

lemma rx_end_match_bare_sentinel: "rx_end_match (str ''|#]'')"
  by (simp add: str_def sentinel_def)

lemma not_isspace_x: "\<not> isspace (str ''x'')"
  by (simp add: str_def isspace_def py_isspace_char_def)

lemma list_all_replicateI: "P x \<Longrightarrow> list_all P (replicate n x)"
  by (simp add: list_all_iff)

section \<open>Whole streams\<close>


lemma aggregate_entries_slices:
  "\<forall>y \<in> set (fst (aggregate_entries lines)).
     take (length (snd y)) (drop (fst y - 1) lines) = snd y \<and>
     \<not> isspace (hd (snd y)) \<and> rx_end_match (last (snd y)) \<and>
     list_all (\<lambda>l. \<not> rx_end_match l) (butlast (snd y))"
proof -
  obtain ys r where run: "agg_loop (Suc (length ([]::line list))) lines ([], None) = (ys, r)"
    by (cases "agg_loop (Suc (length ([]::line list))) lines ([], None)")
  have "agg_inv (Suc (length ([]::line list))) ([], None)"
    by (simp add: agg_inv_def)
  from agg_loop_slices [OF this _ _ _ run] run show ?thesis
    by (simp add: aggregate_entries_def)
qed

lemma aggregate_entries_same_tests:
  assumes "list_all2 same_tests xs ys"
  shows "map (\<lambda>en. (fst en, length (snd en))) (fst (aggregate_entries xs))
           = map (\<lambda>en. (fst en, length (snd en))) (fst (aggregate_entries ys)) \<and>
         snd (aggregate_entries xs) = snd (aggregate_entries ys)"
proof -
  obtain y1 r1 where 1: "agg_loop 1 xs ([], None) = (y1, r1)"
    by (cases "agg_loop 1 xs ([], None)")
  obtain y2 r2 where 2: "agg_loop 1 ys ([], None) = (y2, r2)"
    by (cases "agg_loop 1 ys ([], None)")
  from agg_loop_same_tests [OF assms, of "[]" "[]" 1 None] 1 2
  have "map (\<lambda>en. (fst en, length (snd en))) y1 = map (\<lambda>en. (fst en, length (snd en))) y2"
    and "map_sum id (\<lambda>s. (length (fst s), snd s)) r1 = map_sum id (\<lambda>s. (length (fst s), snd s)) r2"
    by (simp_all add: shape_def)
  with 1 2 show ?thesis
    by (cases r1; cases r2) (simp_all add: aggregate_entries_def)
qed

section \<open>Claims about the aggregator\<close>

text \<open>
  C1 as stated, where an entry is any run of lines whose last and only last line contains
  \<open>|#]\<close>, does not hold for an entry of 5001 lines. The 5000 lines \<open>x\<close> followed by the
  line \<open>|#]\<close> are such an entry, but the assertion stops the generator at the 5001st
  line, and nothing is yielded.
\<close>

theorem overlong_entry_counterexample:
  "sublist sentinel (str ''|#]'') \<and> \<not> sublist sentinel (str ''x'') \<and>
   aggregate_entries (replicate 5000 (str ''x'') @ [str ''|#]'']) = ([], Some AssertionError) \<and>
   aggregate_entries (replicate 5000 (str ''x'') @ [str ''|#]''])
     \<noteq> ([(1, replicate 5000 (str ''x'') @ [str ''|#]''])], None)"
proof -
  have "agg_loop 1 (replicate 5000 (str ''x'') @ str ''|#]'' # []) ([], None) = ([], Inl AssertionError)"
    by (rule agg_loop_overflow) (simp_all add: not_isspace_x not_rx_end_match_x list_all_replicateI)
  then have "aggregate_entries (replicate 5000 (str ''x'') @ [str ''|#]'']) = ([], Some AssertionError)"
    by (simp add: aggregate_entries_def)
  moreover have "sublist sentinel (str ''|#]'')" "\<not> sublist sentinel (str ''x'')"
    by (simp_all add: str_def sentinel_def sublist_code)
  ultimately show ?thesis by simp
qed

text \<open>
  C1, amended. For every stream made of zero or more entries, each a run of at most 5000
  lines that starts with a line that is not whitespace-only and whose last line, and no
  line before it, matches the end-sentinel pattern, each entry preceded by zero or more
  whitespace-only lines, and with whitespace-only lines possibly after the last entry,
  \<open>aggregate_entries\<close> yields exactly those entries, in order, each as the pair of the
  1-based ordinal of its first line (one more than the number of lines before it) and the
  list of its lines, and ends without an error. Whitespace-only lines before an entry
  count as separators. For lines whose only newline, if any, is the last character,
  matching the pattern is containing \<open>|#]\<close> (\<open>well_formed_entry_contains\<close>).
\<close>

theorem aggregate_entries_segments:
  assumes "list_all (\<lambda>(bs, e). list_all isspace bs \<and> well_formed_entry e) segs"
    and "list_all isspace trailing"
  shows "aggregate_entries (flat segs @ trailing) =
           (map (\<lambda>i. (1 + length (flat (take i segs)) + length (fst (segs ! i)), snd (segs ! i)))
              [0..<length segs], None)"
proof -
  from agg_loop_segments [OF assms(1), of 1 None] obtain eln where
    1: "agg_loop 1 (flat segs) ([], None) = (numbered 1 segs, Inr ([], eln))"
    by blast
  have 2: "agg_loop (Suc (length (flat segs))) trailing ([], eln) = ([], Inr ([], eln))"
    using assms(2) by (rule agg_loop_blanks)
  show ?thesis
    using aggregate_entries_after [OF 1 2] by (simp add: numbered_closed_form)
qed

text \<open>
  Three entries: one after a blank line, with an empty and a blank line inside; one of a
  single line; one after two blank lines; and a blank line at the end.
\<close>

theorem aggregate_entries_segments_witness:
  "aggregate_entries
     [str '' '', str ''[#|a'', str '''', str '' '', str ''b|#]'', str ''c|#]'', str '' '', str '' '',
      str ''d'', str ''e|#]'', str '' '']
   = ([(2, [str ''[#|a'', str '''', str '' '', str ''b|#]'']), (6, [str ''c|#]'']),
       (9, [str ''d'', str ''e|#]''])], None)"
  using aggregate_entries_segments
    [of "[([str '' ''], [str ''[#|a'', str '''', str '' '', str ''b|#]'']), ([], [str ''c|#]'']),
          ([str '' '', str '' ''], [str ''d'', str ''e|#]''])]" "[str '' '']"]
  by (simp add: flat_def well_formed_entry_def isspace_def py_isspace_char_def str_def
      sentinel_def newline_def upt_rec [of 0] upt_rec [of 1] upt_rec [of 2] upt_rec [of 3])

text \<open>
  C3. Whatever came before: when the buffer and the lines that follow it, none of them a
  sentinel line, come to 5000 lines, the next line, the 5001st, fails the assertion,
  whatever that line is and whatever follows; the entries yielded before stay yielded.
  An entry of at most 5000 lines that ends with its sentinel line is yielded, with no error.
\<close>

theorem overflow_guard:
  "(agg_loop 1 pre ([], None) = (ys, Inr (buf, eln)) \<and>
    (buf \<noteq> [] \<or> xs \<noteq> [] \<and> \<not> isspace (hd xs)) \<and>
    list_all (\<lambda>l. \<not> rx_end_match l) xs \<and> length buf + length xs = 5000
      \<longrightarrow> aggregate_entries (pre @ xs @ line # rest) = (ys, Some AssertionError)) \<and>
   (agg_loop 1 pre ([], None) = (ys, Inr ([], eln)) \<and> well_formed_entry e
      \<longrightarrow> aggregate_entries (pre @ e) = (ys @ [(length pre + 1, e)], None))"
proof (intro conjI impI; elim conjE)
  assume pre: "agg_loop 1 pre ([], None) = (ys, Inr (buf, eln))"
    and "buf \<noteq> [] \<or> xs \<noteq> [] \<and> \<not> isspace (hd xs)" "list_all (\<lambda>l. \<not> rx_end_match l) xs"
    "length buf + length xs = 5000"
  then have "agg_loop (Suc (length pre)) (xs @ line # rest) (buf, eln) = ([], Inl AssertionError)"
    by (intro agg_loop_overflow)
  from aggregate_entries_after [OF pre this]
  show "aggregate_entries (pre @ xs @ line # rest) = (ys, Some AssertionError)"
    by simp
next
  assume pre: "agg_loop 1 pre ([], None) = (ys, Inr ([], eln))" and "well_formed_entry e"
  then have "agg_loop (Suc (length pre)) e ([], eln)
      = ([(Suc (length pre), e)], Inr ([], Some (Suc (length pre))))"
    by (intro agg_loop_entry)
  from aggregate_entries_after [OF pre this]
  show "aggregate_entries (pre @ e) = (ys @ [(length pre + 1, e)], None)"
    by simp
qed

text \<open>
  After a first entry: 5000 lines and a sentinel line as the 5001st raise; 4999 lines and
  the sentinel line as the 5000th are yielded as an entry that starts at line 2.
\<close>

theorem overflow_guard_witness:
  "aggregate_entries ([str ''a|#]''] @ replicate 5000 (str ''x'') @ [str ''y|#]''])
     = ([(1, [str ''a|#]''])], Some AssertionError) \<and>
   aggregate_entries ([str ''a|#]''] @ (replicate 4999 (str ''x'') @ [str ''y|#]'']))
     = ([(1, [str ''a|#]'']), (2, replicate 4999 (str ''x'') @ [str ''y|#]''])], None)"
proof -
  have pre: "agg_loop 1 [str ''a|#]''] ([], None) = ([(1, [str ''a|#]''])], Inr ([], Some 1))"
    by (simp add: eval_defs)
  have x: "\<not> isspace (str ''x'')" "\<not> rx_end_match (str ''x'')"
    by (simp_all add: eval_defs)
  have y: "rx_end_match (str ''y|#]'')"
    by (simp add: eval_defs)
  have wf: "well_formed_entry (replicate 4999 (str ''x'') @ [str ''y|#]''])"
    using x y by (simp add: well_formed_entry_def hd_append list_all_replicateI)
  have run: "(([]::line list) \<noteq> [] \<or> replicate 5000 (str ''x'') \<noteq> [] \<and> \<not> isspace (hd (replicate 5000 (str ''x'')))) \<and>
    list_all (\<lambda>l. \<not> rx_end_match l) (replicate 5000 (str ''x'')) \<and>
    length ([]::line list) + length (replicate 5000 (str ''x'')) = 5000"
    using x by (simp add: list_all_replicateI)
  from pre run wf
    overflow_guard [of "[str ''a|#]'']" "[(1, [str ''a|#]''])]" "[]" "Some 1"
      "replicate 5000 (str ''x'')" "str ''y|#]''" "[]" "replicate 4999 (str ''x'') @ [str ''y|#]'']"]
  show ?thesis by simp
qed

text \<open>
  C4. When the stream ends with a run of at most 5000 lines, the first of them not
  whitespace-only and none of them a sentinel line, after a prefix that left the buffer
  empty, the generator ends normally: that run is in the buffer at the end, it is not
  yielded, no error is raised, and the result is the one of the prefix alone.
\<close>

theorem dangling_tail_discarded:
  assumes "agg_loop 1 pre ([], None) = (ys, Inr ([], eln))"
    and "tail \<noteq> []" "\<not> isspace (hd tail)"
    and "list_all (\<lambda>l. \<not> rx_end_match l) tail" "length tail \<le> 5000"
  shows "aggregate_entries (pre @ tail) = (ys, None) \<and>
         aggregate_entries pre = (ys, None) \<and>
         agg_loop 1 (pre @ tail) ([], None) = (ys, Inr (tail, Some (length pre + 1)))"
proof -
  have 2: "agg_loop (Suc (length pre)) tail ([], eln) = ([], Inr ([] @ tail, if [] = ([]::line list) then Some (Suc (length pre)) else eln))"
    using assms(2-5) by (intro agg_loop_accumulate_first) simp_all
  from aggregate_entries_after [OF assms(1) 2] agg_loop_append_ok [OF assms(1), of tail] 2 assms(1)
  show ?thesis
    by (simp add: aggregate_entries_def)
qed

text \<open>An entry, a blank line, and three lines with no sentinel: only the entry is yielded.\<close>

theorem dangling_tail_discarded_witness:
  "aggregate_entries [str ''a|#]'', str '' '', str ''[#|b'', str '' '', str ''c''] = ([(1, [str ''a|#]''])], None) \<and>
   aggregate_entries [str ''a|#]'', str '' ''] = ([(1, [str ''a|#]''])], None) \<and>
   agg_loop 1 [str ''a|#]'', str '' '', str ''[#|b'', str '' '', str ''c''] ([], None)
     = ([(1, [str ''a|#]''])], Inr ([str ''[#|b'', str '' '', str ''c''], Some 3))"
  using dangling_tail_discarded [of "[str ''a|#]'', str '' '']" "[(1, [str ''a|#]''])]" "Some 1"
      "[str ''[#|b'', str '' '', str ''c'']"]
  by (simp add: eval_defs)




text \<open>
  C7. A line that matches the end-sentinel pattern is not whitespace-only: it has a
  character that is not whitespace. So, although the sentinel is tested on every line,
  also on one skipped as a leading blank, an iteration of the loop never yields an empty
  buffer, every entry yielded by \<open>aggregate_entries\<close> has at least one line and a start
  ordinal (at least 1), and \<open>entry_line_no\<close> is never read before it is assigned.
\<close>

theorem sentinel_line_not_blank:
  "(rx_end_match line \<longrightarrow> \<not> isspace line \<and> \<not> list_all py_isspace_char line) \<and>
   (agg_step line_no line (buffer, entry_line_no) = Inr (Some (n, ls), s) \<longrightarrow> ls \<noteq> []) \<and>
   (\<forall>y \<in> set (fst (aggregate_entries lines)). snd y \<noteq> [] \<and> 1 \<le> fst y) \<and>
   snd (aggregate_entries lines) \<noteq> Some UnboundLocalError"
proof (intro conjI impI)
  assume "rx_end_match line"
  then show "\<not> isspace line" by (rule rx_end_match_not_isspace)
next
  assume "rx_end_match line"
  then have "\<not> isspace line" "line \<noteq> []"
    by (auto dest: rx_end_match_not_isspace)
  then show "\<not> list_all py_isspace_char line"
    by (simp add: isspace_def)
next
  assume step: "agg_step line_no line (buffer, entry_line_no) = Inr (Some (n, ls), s)"
  obtain buf' eln' where s: "s = (buf', eln')" by (cases s)
  from step [unfolded s] show "ls \<noteq> []"
    by (cases rule: agg_step_cases) simp_all
next
  obtain ys r where run: "agg_loop 1 lines ([], None) = (ys, r)"
    by (cases "agg_loop 1 lines ([], None)")
  note starts = agg_loop_starts [OF agg_inv_init run]
  from run starts show "\<forall>y \<in> set (fst (aggregate_entries lines)). snd y \<noteq> [] \<and> 1 \<le> fst y"
    by (simp add: aggregate_entries_def)
  from run starts show "snd (aggregate_entries lines) \<noteq> Some UnboundLocalError"
    by (auto simp: aggregate_entries_def split: sum.splits)
qed

text \<open>A sentinel line after a blank line: the entry yielded is that one line, at ordinal 2.\<close>

theorem sentinel_line_not_blank_witness:
  "rx_end_match (str ''a|#]'') \<and> \<not> isspace (str ''a|#]'') \<and>
   agg_step 2 (str ''a|#]'') ([], None) = Inr (Some (2, [str ''a|#]'']), ([], Some 2)) \<and>
   fst (aggregate_entries [str '' '', str ''a|#]'']) = [(2, [str ''a|#]''])] \<and>
   snd (aggregate_entries [str '' '', str ''a|#]'']) = None"
  using sentinel_line_not_blank [of "str ''a|#]''" 2 "[]" None 2 "[str ''a|#]'']" "([], Some 2)"
      "[str '' '', str ''a|#]'']"]
  by (simp add: eval_defs)

text \<open>
  C8. The start line numbers of the pairs yielded by \<open>aggregate_entries\<close> are strictly
  increasing, and so are those of the pairs that survive the filter of any list of patterns.
\<close>

theorem start_lines_ascending:
  "sorted_wrt (<) (map fst (fst (aggregate_entries lines))) \<and>
   sorted_wrt (<) (map fst (filter (make_regex_filter regexes) (fst (aggregate_entries lines))))"
proof -
  obtain ys r where run: "agg_loop 1 lines ([], None) = (ys, r)"
    by (cases "agg_loop 1 lines ([], None)")
  from agg_loop_starts [OF agg_inv_init run]
  have "sorted_wrt (<) (map fst ys)"
    by (intro sorted_starts) auto
  moreover from this have "sorted_wrt (<) (map fst (filter (make_regex_filter regexes) ys))"
    by (simp add: sorted_wrt_map sorted_wrt_filter)
  ultimately show ?thesis
    using run by (simp add: aggregate_entries_def)
qed

text \<open>Two entries, starting at lines 1 and 3.\<close>

theorem start_lines_ascending_witness:
  "map fst (fst (aggregate_entries [str ''a|#]'', str '' '', str ''b'', str ''c|#]''])) = [1, 3] \<and>
   sorted_wrt (<) (map fst (fst (aggregate_entries [str ''a|#]'', str '' '', str ''b'', str ''c|#]''])))"
  using start_lines_ascending [of "[str ''a|#]'', str '' '', str ''b'', str ''c|#]'']" "[]"]
  by (simp add: eval_defs)

text \<open>
  C9. The empty string is not whitespace-only for \<open>isspace\<close>. An empty line that arrives
  while the buffer is empty is put into the buffer and its ordinal is recorded as the start
  of the entry; when the entry is completed it is yielded with the empty line as its first
  line.
\<close>

theorem empty_line_not_blank:
  "\<not> isspace [] \<and>
   agg_step n [] ([], eln) = Inr (None, ([[]], Some n)) \<and>
   (agg_loop 1 pre ([], None) = (ys, Inr ([], eln)) \<longrightarrow>
      agg_loop 1 (pre @ [[]]) ([], None) = (ys, Inr ([[]], Some (length pre + 1)))) \<and>
   (agg_loop 1 pre ([], None) = (ys, Inr ([], eln)) \<and> well_formed_entry ([] # more) \<longrightarrow>
      aggregate_entries (pre @ [] # more) = (ys @ [(length pre + 1, [] # more)], None))"
proof (intro conjI impI)
  show "\<not> isspace []"
    by (simp add: isspace_def)
  then show step: "\<And>n eln. agg_step n [] ([], eln) = Inr (None, ([[]], Some n))"
    using agg_step_append [of "[]" "[]"] by simp
  {
    assume pre: "agg_loop 1 pre ([], None) = (ys, Inr ([], eln))"
    have "agg_loop (Suc (length pre)) [[]] ([], eln) = ([], Inr ([[]], Some (Suc (length pre))))"
      by (simp add: step)
    from agg_loop_append_ok [OF pre, of "[[]]"] this
    show "agg_loop 1 (pre @ [[]]) ([], None) = (ys, Inr ([[]], Some (length pre + 1)))"
      by simp
  }
  {
    assume "agg_loop 1 pre ([], None) = (ys, Inr ([], eln)) \<and> well_formed_entry ([] # more)"
    then have pre: "agg_loop 1 pre ([], None) = (ys, Inr ([], eln))"
      and e: "well_formed_entry ([] # more)"
      by simp_all
    have "agg_loop (Suc (length pre)) ([] # more) ([], eln)
              = ([(Suc (length pre), [] # more)], Inr ([], Some (Suc (length pre))))"
      using e by (rule agg_loop_entry)
    from aggregate_entries_after [OF pre this]
    show "aggregate_entries (pre @ [] # more) = (ys @ [(length pre + 1, [] # more)], None)"
      by simp
  }
qed

text \<open>An empty line after an entry and a blank line starts the next entry, at line 3.\<close>

theorem empty_line_not_blank_witness:
  "agg_loop 1 ([str ''a|#]'', str '' ''] @ [[]]) ([], None)
     = ([(1, [str ''a|#]''])], Inr ([[]], Some 3)) \<and>
   aggregate_entries ([str ''a|#]'', str '' ''] @ [] # [str ''b|#]''])
     = ([(1, [str ''a|#]'']), (3, [[], str ''b|#]''])], None)"
proof -
  have pre: "agg_loop 1 [str ''a|#]'', str '' ''] ([], None) = ([(1, [str ''a|#]''])], Inr ([], Some 1))"
    by (simp add: eval_defs)
  have e: "well_formed_entry ([] # [str ''b|#]''])"
    by (simp add: well_formed_entry_def eval_defs)
  from pre e empty_line_not_blank [of 1 "Some 1" "[str ''a|#]'', str '' '']" "[(1, [str ''a|#]''])]"
      "[str ''b|#]'']"]
  show ?thesis by simp
qed

text \<open>
  C10. Only the two tests decide: two streams of the same length whose lines agree on
  \<open>isspace\<close> and on the sentinel pattern yield entries with the same start ordinals and
  the same numbers of lines, and end the same way. A line that arrives while the buffer is
  not empty, with the start marker \<open>[#|\<close> or not, joins the current entry, whose start
  ordinal is kept (or fails the assertion of the bound); a line that is not whitespace-only
  and arrives while the buffer is empty starts an entry at its own ordinal, with the start
  marker or not; a line that does not contain \<open>|#]\<close> yields nothing, and every yielded
  entry ends with a line that matches the sentinel pattern and has no such line before.
\<close>

theorem start_marker_ignored:
  "(list_all2 same_tests xs ys \<longrightarrow>
      map (\<lambda>en. (fst en, length (snd en))) (fst (aggregate_entries xs))
        = map (\<lambda>en. (fst en, length (snd en))) (fst (aggregate_entries ys)) \<and>
      snd (aggregate_entries xs) = snd (aggregate_entries ys)) \<and>
   (buf \<noteq> [] \<longrightarrow>
      agg_step n l (buf, Some k) =
        (if \<not> length buf < 5000 then Inl AssertionError
         else if rx_end_match l then Inr (Some (k, buf @ [l]), ([], Some k))
         else Inr (None, (buf @ [l], Some k)))) \<and>
   (\<not> isspace l \<longrightarrow>
      agg_step n l ([], eln) =
        (if rx_end_match l then Inr (Some (n, [l]), ([], Some n))
         else Inr (None, ([l], Some n)))) \<and>
   (\<not> sublist sentinel l \<and> agg_step n l s = Inr (y, s') \<longrightarrow> y = None) \<and>
   (\<forall>y \<in> set (fst (aggregate_entries lines)).
      rx_end_match (last (snd y)) \<and> list_all (\<lambda>l. \<not> rx_end_match l) (butlast (snd y)))"
proof (intro conjI impI)
  assume "list_all2 same_tests xs ys"
  from aggregate_entries_same_tests [OF this]
  show "map (\<lambda>en. (fst en, length (snd en))) (fst (aggregate_entries xs))
        = map (\<lambda>en. (fst en, length (snd en))) (fst (aggregate_entries ys))"
    and "snd (aggregate_entries xs) = snd (aggregate_entries ys)"
    by simp_all
next
  assume "buf \<noteq> []"
  then show "agg_step n l (buf, Some k) =
        (if \<not> length buf < 5000 then Inl AssertionError
         else if rx_end_match l then Inr (Some (k, buf @ [l]), ([], Some k))
         else Inr (None, (buf @ [l], Some k)))"
    by (simp add: agg_step_flush agg_step_append agg_step_overflow)
next
  assume "\<not> isspace l"
  then show "agg_step n l ([], eln) =
        (if rx_end_match l then Inr (Some (n, [l]), ([], Some n))
         else Inr (None, ([l], Some n)))"
    by (simp add: agg_step_flush_first agg_step_append)
next
  assume a: "\<not> sublist sentinel l \<and> agg_step n l s = Inr (y, s')"
  then have no: "\<not> rx_end_match l"
    using rx_end_match_sublist by blast
  obtain buf eln buf' eln' where s: "s = (buf, eln)" "s' = (buf', eln')"
    by (cases s; cases s') auto
  from a have "agg_step n l (buf, eln) = Inr (y, (buf', eln'))"
    by (simp add: s)
  then show "y = None"
    using no by (cases rule: agg_step_cases) simp_all
next
  show "\<forall>y \<in> set (fst (aggregate_entries lines)).
      rx_end_match (last (snd y)) \<and> list_all (\<lambda>l. \<not> rx_end_match l) (butlast (snd y))"
    using aggregate_entries_slices [of lines] by blast
qed

text \<open>
  Start markers in the middle of an entry and none at the start of the next one; the same
  stream with the start markers moved has entries of the same ordinals and lengths.
\<close>

theorem start_marker_ignored_witness:
  "aggregate_entries [str ''[#|a'', str ''[#|b'', str ''c|#]'', str ''d'', str ''e|#]'']
     = ([(1, [str ''[#|a'', str ''[#|b'', str ''c|#]'']), (4, [str ''d'', str ''e|#]''])], None) \<and>
   map (\<lambda>en. (fst en, length (snd en)))
       (fst (aggregate_entries [str ''a'', str ''b'', str ''[#|c|#]'', str ''[#|d'', str ''[#|e|#]'']))
     = [(1, 3), (4, 2)] \<and>
   agg_step 2 (str ''[#|b'') ([str ''[#|a''], Some 1) = Inr (None, ([str ''[#|a'', str ''[#|b''], Some 1)) \<and>
   agg_step 4 (str ''d'') ([], Some 1) = Inr (None, ([str ''d''], Some 4)) \<and>
   agg_step 4 (str ''[#|d'') ([], Some 1) = Inr (None, ([str ''[#|d''], Some 4))"
proof -
  have same: "list_all2 same_tests [str ''[#|a'', str ''[#|b'', str ''c|#]'', str ''d'', str ''e|#]'']
      [str ''a'', str ''b'', str ''[#|c|#]'', str ''[#|d'', str ''[#|e|#]'']"
    by (simp add: same_tests_def eval_defs)
  have run: "aggregate_entries [str ''[#|a'', str ''[#|b'', str ''c|#]'', str ''d'', str ''e|#]'']
     = ([(1, [str ''[#|a'', str ''[#|b'', str ''c|#]'']), (4, [str ''d'', str ''e|#]''])], None)"
    by (simp add: eval_defs)
  have tests: "\<not> isspace (str ''d'')" "\<not> rx_end_match (str ''d'')"
    "\<not> isspace (str ''[#|d'')" "\<not> rx_end_match (str ''[#|d'')" "\<not> rx_end_match (str ''[#|b'')"
    by (simp_all add: eval_defs)
  from same run tests
    start_marker_ignored [of "[str ''[#|a'', str ''[#|b'', str ''c|#]'', str ''d'', str ''e|#]'']"
      "[str ''a'', str ''b'', str ''[#|c|#]'', str ''[#|d'', str ''[#|e|#]'']"
      "[str ''[#|a'']" 2 "str ''[#|b''" 1 None "([], None)" None "([], None)" "[]"]
    start_marker_ignored [of "[]" "[]" "[str ''[#|a'']" 4 "str ''d''" 1 "Some 1" "([], None)" None "([], None)" "[]"]
    start_marker_ignored [of "[]" "[]" "[str ''[#|a'']" 4 "str ''[#|d''" 1 "Some 1" "([], None)" None "([], None)" "[]"]
  show ?thesis by (simp add: numeral_2_eq_2 numeral_3_eq_3)
qed

section \<open>Claims about the entry filter\<close>

text \<open>
  C2. The predicate built by \<open>make_regex_filter\<close> accepts an entry exactly when every
  pattern of the list has a matching line among the lines of the entry, each pattern possibly
  on a different line; for the empty list of patterns it accepts every entry.
\<close>

theorem make_regex_filter_conjunctive:
  "(make_regex_filter regexes entry \<longleftrightarrow>
      (\<forall>regex \<in> set regexes. \<exists>l \<in> set (snd entry). search regex l)) \<and>
   make_regex_filter [] entry"
  by (simp add: make_regex_filter_def matches_iff)

text \<open>
  Two patterns that match on two different lines of one entry accept it; an entry with a
  match for only one of them is rejected; the empty list accepts it.
\<close>

theorem make_regex_filter_conjunctive_witness:
  "make_regex_filter
     [Regex (sublist (str ''SEVERE'')), Regex (sublist (str ''NullPointerException''))]
     (1, [str ''[#|SEVERE|'', str ''java.lang.NullPointerException|#]'']) \<and>
   \<not> make_regex_filter
     [Regex (sublist (str ''SEVERE'')), Regex (sublist (str ''NullPointerException''))]
     (3, [str ''[#|SEVERE|no exception|#]'']) \<and>
   make_regex_filter [] (3, [str ''[#|SEVERE|no exception|#]''])"
  using make_regex_filter_conjunctive
    [of "[Regex (sublist (str ''SEVERE'')), Regex (sublist (str ''NullPointerException''))]"
        "(1, [str ''[#|SEVERE|'', str ''java.lang.NullPointerException|#]''])"]
    make_regex_filter_conjunctive
    [of "[Regex (sublist (str ''SEVERE'')), Regex (sublist (str ''NullPointerException''))]"
        "(3, [str ''[#|SEVERE|no exception|#]''])"]
  by (simp add: str_def sublist_code)

text \<open>
  C6. The predicates built from a list of patterns and from any permutation of it give the
  same answer on every entry.
\<close>

theorem make_regex_filter_order_independent:
  "mset regexes' = mset regexes \<Longrightarrow>
   make_regex_filter regexes' entry = make_regex_filter regexes entry"
proof -
  assume "mset regexes' = mset regexes"
  then have "set regexes' = set regexes"
    by (rule mset_eq_setD)
  then show ?thesis
    by (simp add: make_regex_filter_def matches_iff)
qed

text \<open>The two orders of two patterns, on an entry that only the first one matches.\<close>

theorem make_regex_filter_order_independent_witness:
  "mset [Regex (sublist (str ''b'')), Regex (sublist (str ''a''))]
     = mset [Regex (sublist (str ''a'')), Regex (sublist (str ''b''))] \<and>
   make_regex_filter [Regex (sublist (str ''b'')), Regex (sublist (str ''a''))] (1, [str ''a|#]''])
     = make_regex_filter [Regex (sublist (str ''a'')), Regex (sublist (str ''b''))] (1, [str ''a|#]'']) \<and>
   \<not> make_regex_filter [Regex (sublist (str ''a'')), Regex (sublist (str ''b''))] (1, [str ''a|#]''])"
proof -
  have m: "mset [Regex (sublist (str ''b'')), Regex (sublist (str ''a''))]
     = mset [Regex (sublist (str ''a'')), Regex (sublist (str ''b''))]"
    by (simp add: add_mset_commute)
  have "\<not> make_regex_filter [Regex (sublist (str ''a'')), Regex (sublist (str ''b''))] (1, [str ''a|#]''])"
    by (simp add: make_regex_filter_def str_def sublist_code)
  with m make_regex_filter_order_independent [OF m, of "(1, [str ''a|#]''])"]
  show ?thesis by simp
qed

end
